theory Spec2Isabelle
  imports Complex_Main "HOL-Library.Product_Lexorder"
begin

section \<open>Strings of the notebook\<close>

text \<open>
  A Python \<open>str\<close> is a sequence of code points. It is modelled as a \<open>string\<close>, each
  \<open>char\<close> standing for one code point below 256. The three characters the notebook
  names are the tab (the default \<open>splitter\<close>), the line feed and the carriage return.
\<close>

abbreviation TAB :: char where "TAB \<equiv> CHR 0x09"
abbreviation NL :: char where "NL \<equiv> CHR 0x0A"
abbreviation CR :: char where "CR \<equiv> CHR 0x0D"

text \<open>
  \<open>str.isspace\<close> and \<open>str.strip\<close> use the same set of whitespace code points; below 256
  these are 9 to 13, 28 to 32, 133 and 160.
\<close>

definition isspace_char :: "char \<Rightarrow> bool" where
  "isspace_char c = (let n = (of_char c :: nat) in
     (9 \<le> n \<and> n \<le> 13) \<or> (28 \<le> n \<and> n \<le> 32) \<or> n = 133 \<or> n = 160)"

text \<open>\<open>s.isspace()\<close>: at least one character, and all of them whitespace.\<close>

definition isspace :: "string \<Rightarrow> bool" where
  "isspace s = (s \<noteq> [] \<and> list_all isspace_char s)"

text \<open>\<open>s.strip()\<close>: whitespace removed from both ends.\<close>

definition strip :: "string \<Rightarrow> string" where
  "strip s = rev (dropWhile isspace_char (rev (dropWhile isspace_char s)))"

text \<open>
  \<open>s.split(sep)\<close> for a one-character separator: the fields between the occurrences
  of the separator, so a string with \<open>k\<close> separators has \<open>k + 1\<close> fields.
\<close>

fun split :: "char \<Rightarrow> string \<Rightarrow> string list" where
  "split sep [] = [[]]"
| "split sep (c # cs) =
     (if c = sep then [] # split sep cs
      else (case split sep cs of
              [] \<Rightarrow> [[c]]
            | w # ws \<Rightarrow> (c # w) # ws))"

section \<open>Reading a text file line by line\<close>

text \<open>
  \<open>open(filename)\<close> reads in text mode with universal newlines: \<open>\r\n\<close> and a lone
  \<open>\r\<close> both arrive as \<open>\n\<close>. Iterating over the file yields the lines with their
  terminating \<open>\n\<close>; only the last line can lack it, and no line is empty.
\<close>

fun universal_newlines :: "string \<Rightarrow> string" where
  "universal_newlines [] = []"
| "universal_newlines [c] = [if c = CR then NL else c]"
| "universal_newlines (c # d # ds) =
     (if c = CR \<and> d = NL then NL # universal_newlines ds
      else if c = CR then NL # universal_newlines (d # ds)
      else c # universal_newlines (d # ds))"

fun file_lines :: "string \<Rightarrow> string list" where
  "file_lines [] = []"
| "file_lines (c # cs) =
     (if c = NL then [NL] # file_lines cs
      else (case file_lines cs of
              [] \<Rightarrow> [[c]]
            | l # ls \<Rightarrow> (c # l) # ls))"

section \<open>\<open>read_dataset\<close> (notebook cell 4)\<close>

datatype error = ValueError | KeyError | RuntimeError

type_synonym sentence_tags = "string list \<times> string list"

text \<open>The three local variables of \<open>read_dataset\<close>.\<close>

record reader =
  data :: "sentence_tags list"
  sentence :: "string list"
  tags :: "string list"

definition reader_init :: reader where
  "reader_init = \<lparr>data = [], sentence = [], tags = []\<rparr>"

text \<open>
  One pass of the loop body. The unpacking \<open>word, tag = line.split(splitter)\<close> raises
  \<open>ValueError\<close> unless the split has exactly two fields; every call of the notebook
  uses the default splitter, the tab.
\<close>

definition read_line :: "reader \<Rightarrow> string \<Rightarrow> error + reader" where
  "read_line st line =
     (if \<not> isspace line then
        (case split TAB line of
           [word, tag] \<Rightarrow>
             Inr (st\<lparr>sentence := sentence st @ [word], tags := tags st @ [strip tag]\<rparr>)
         | _ \<Rightarrow> Inl ValueError)
      else
        Inr \<lparr>data = data st @ [(sentence st, tags st)], sentence = [], tags = []\<rparr>)"

fun read_lines :: "reader \<Rightarrow> string list \<Rightarrow> error + reader" where
  "read_lines st [] = Inr st"
| "read_lines st (line # rest) =
     (case read_line st line of
        Inl e \<Rightarrow> Inl e
      | Inr st' \<Rightarrow> read_lines st' rest)"

text \<open>After the loop the function returns \<open>data\<close>; the two other variables are dropped.\<close>

definition read_dataset_lines :: "string list \<Rightarrow> error + sentence_tags list" where
  "read_dataset_lines ls =
     (case read_lines reader_init ls of
        Inl e \<Rightarrow> Inl e
      | Inr st \<Rightarrow> Inr (data st))"

text \<open>\<open>read_dataset\<close> on a file with the given content.\<close>

definition read_dataset :: "string \<Rightarrow> error + sentence_tags list" where
  "read_dataset content = read_dataset_lines (file_lines (universal_newlines content))"

section \<open>The tag dictionaries (notebook cell 7)\<close>

definition tag_to_ix_items :: "(string \<times> int) list" where
  "tag_to_ix_items =
     [(''O'', 0), (''B-Object'', 1), (''I-Object'', 2), (''B-Aspect'', 3),
      (''I-Aspect'', 4), (''B-Predicate'', 5), (''I-Predicate'', 6)]"

text \<open>A dictionary built from a sequence of pairs keeps the last value of a repeated key.\<close>

definition dict :: "('k \<times> 'v) list \<Rightarrow> ('k \<rightharpoonup> 'v)" where
  "dict kvs = map_of (rev kvs)"

definition tag_to_ix :: "string \<rightharpoonup> int" where
  "tag_to_ix = dict tag_to_ix_items"

text \<open>\<open>idx_to_tag = dict(map(reversed, tag_to_ix.items()))\<close>\<close>

definition idx_to_tag :: "int \<rightharpoonup> string" where
  "idx_to_tag = dict (map (\<lambda>(k, v). (v, k)) tag_to_ix_items)"

section \<open>Writing the predicted file (notebook cell 12)\<close>

text \<open>
  \<open>[idx_to_tag[int(i)] for i in ...]\<close>: a missing key raises \<open>KeyError\<close>. The indices are
  the tagger's arg-max output, which is outside this development and is a parameter.
\<close>

fun lookup_tags :: "int list \<Rightarrow> error + string list" where
  "lookup_tags [] = Inr []"
| "lookup_tags (i # is) =
     (case idx_to_tag i of
        None \<Rightarrow> Inl KeyError
      | Some t \<Rightarrow> (case lookup_tags is of Inl e \<Rightarrow> Inl e | Inr ts \<Rightarrow> Inr (t # ts)))"

text \<open>The inner loop and the blank line after it, for one sentence.\<close>

definition write_sentence :: "string list \<Rightarrow> string list \<Rightarrow> string" where
  "write_sentence toks tgs =
     concat (map (\<lambda>(i, y). i @ [TAB] @ y @ [NL]) (zip toks tgs)) @ [NL]"

definition write_sentences :: "sentence_tags list \<Rightarrow> string" where
  "write_sentences sents = concat (map (\<lambda>(toks, tgs). write_sentence toks tgs) sents)"

text \<open>
  The whole cell. \<open>predict\<close> stands for the tagger followed by \<open>argmax\<close>: it gives the
  indices for a sentence's tokens. \<open>Tagger.forward\<close> reshapes the embeddings with
  \<open>view(len(sentence), 1, -1)\<close>, which raises \<open>RuntimeError\<close> for a sentence without
  tokens, so the tagger is only ever applied to a sentence that has some. The result is
  the text written to \<open>test_file\<close> and the exception that ended the loop, if any: the
  tagger runs and the tags of a sentence are all looked up before its first line is
  written, so a failure leaves the sentences before it in the file.
\<close>

fun inference ::
  "(string list \<Rightarrow> int list) \<Rightarrow> sentence_tags list \<Rightarrow> string \<times> error option" where
  "inference predict [] = ([], None)"
| "inference predict (s # rest) =
     (if fst s = [] then ([], Some RuntimeError)
      else
        (case lookup_tags (predict (fst s)) of
           Inl e \<Rightarrow> ([], Some e)
         | Inr tgs \<Rightarrow>
             (case inference predict rest of
                (out, err) \<Rightarrow> (write_sentence (fst s) tgs @ out, err))))"

text \<open>
  What the tagger gives for the sentences of a corpus: one index per token, each the
  arg-max over the \<open>len(tag_to_ix)\<close> = 7 columns of the tag scores.
\<close>

definition tagger_ok :: "(string list \<Rightarrow> int list) \<Rightarrow> sentence_tags list \<Rightarrow> bool" where
  "tagger_ok predict sents =
     list_all (\<lambda>s. length (predict (fst s)) = length (fst s) \<and>
                   list_all (\<lambda>i. 0 \<le> i \<and> i < 7) (predict (fst s))) sents"

text \<open>The tags written for a list of indices; none when a lookup raises.\<close>

definition tags_of :: "int list \<Rightarrow> string list" where
  "tags_of is = (case lookup_tags is of Inl e \<Rightarrow> [] | Inr ts \<Rightarrow> ts)"

text \<open>A sentence of the corpus with the tags the cell writes for it.\<close>

definition predicted :: "(string list \<Rightarrow> int list) \<Rightarrow> sentence_tags \<Rightarrow> sentence_tags" where
  "predicted predict s = (fst s, tags_of (predict (fst s)))"

section \<open>Well-formed input of the writer and output of the reader\<close>

text \<open>
  The predicates used to state what the writer must be given for its file to read back:
  a token without tab, line feed or carriage return; a tag that is not empty, has none
  of these characters and neither starts nor ends with whitespace; a sentence with as
  many tags as tokens.
\<close>

definition token_ok :: "string \<Rightarrow> bool" where
  "token_ok tok = (TAB \<notin> set tok \<and> NL \<notin> set tok \<and> CR \<notin> set tok)"

definition tag_ok :: "string \<Rightarrow> bool" where
  "tag_ok t = (t \<noteq> [] \<and> TAB \<notin> set t \<and> NL \<notin> set t \<and> CR \<notin> set t \<and>
     \<not> isspace_char (hd t) \<and> \<not> isspace_char (last t))"

definition sentence_ok :: "sentence_tags \<Rightarrow> bool" where
  "sentence_ok s =
     (length (fst s) = length (snd s) \<and> list_all token_ok (fst s) \<and> list_all tag_ok (snd s))"

text \<open>The line written for one token and its tag.\<close>

definition line_of :: "string \<times> string \<Rightarrow> string" where
  "line_of p = fst p @ [TAB] @ snd p @ [NL]"


text \<open>
  A line as the file iteration gives it: a line feed can only be its last character,
  and it holds no carriage return.
\<close>

definition line_ok :: "string \<Rightarrow> bool" where
  "line_ok l = (NL \<notin> set (butlast l) \<and> CR \<notin> set l)"

text \<open>The seven tags of \<open>tag_to_ix\<close>.\<close>

definition closed_tags :: "string list" where
  "closed_tags =
     [''O'', ''B-Object'', ''I-Object'', ''B-Aspect'', ''I-Aspect'', ''B-Predicate'',
      ''I-Predicate'']"

text \<open>
  Whether some blank line of \<open>ls\<close> is read while nothing is accumulated; the flag says
  whether nothing is accumulated before the first line.
\<close>

fun blank_on_empty :: "bool \<Rightarrow> string list \<Rightarrow> bool" where
  "blank_on_empty e [] = False"
| "blank_on_empty e (l # ls) =
     (if isspace l then e \<or> blank_on_empty True ls else blank_on_empty False ls)"

section \<open>The evaluator called in notebook cell 13\<close>

text \<open>
  Cell 13 imports \<open>main\<close> from \<open>evaluation.evaluate_f1_partial\<close> and prints the
  file it writes. That module is not among the sources; only the call and the printed
  report are. Every definition of this section is therefore written from the
  specification (sections 3, 4.2 to 4.5 and 6), and says so.
\<close>

text \<open>
  Modelled from the spec: the closed category set of the missing evaluator. The order
  is the one of the report printed in cell 13: aspect, object, predicate.
\<close>

datatype category = Aspect | Object | Predicate

definition categories :: "category list" where
  "categories = [Aspect, Object, Predicate]"

text \<open>
  Modelled from the spec: the tags of the missing evaluator (section 3): \<open>O\<close>,
  \<open>B-<category>\<close> and \<open>I-<category>\<close>.
\<close>

datatype tag = Outside | Begin category | Inside category

text \<open>
  Modelled from the spec: a span of the missing evaluator (section 3), with inclusive
  token indices counted from 0.
\<close>

record span =
  span_category :: category
  start_index :: nat
  end_index :: nat

definition new_span :: "category \<Rightarrow> nat \<Rightarrow> span" where
  "new_span c i = \<lparr>span_category = c, start_index = i, end_index = i\<rparr>"

subsection \<open>Span Extractor (section 4.2)\<close>

text \<open>
  Modelled from the spec: the state of the missing extractor's scan, the open span or
  none and the spans emitted so far.
\<close>

record extractor =
  open_span :: "span option"
  emitted :: "span list"

definition extractor_init :: extractor where
  "extractor_init = \<lparr>open_span = None, emitted = []\<rparr>"

text \<open>Modelled from the spec: closing the open span of the missing extractor emits it.\<close>

definition close_open :: "extractor \<Rightarrow> span list" where
  "close_open st = (case open_span st of None \<Rightarrow> emitted st | Some sp \<Rightarrow> emitted st @ [sp])"

text \<open>
  Modelled from the spec: one step of the missing extractor, the three rules of
  section 4.2. \<open>O\<close> and \<open>B-\<close> close the open span and emit it. \<open>I-\<close> extends an open
  span of the same category; otherwise it is treated as starting a new span at the
  current index, that is as \<open>B-\<close> is: an open span of another category is closed and
  emitted, so that no span is lost and the stray tag gets a span of its own.
\<close>

fun scan_tag :: "extractor \<Rightarrow> nat \<Rightarrow> tag \<Rightarrow> extractor" where
  "scan_tag st i Outside = \<lparr>open_span = None, emitted = close_open st\<rparr>"
| "scan_tag st i (Begin c) = \<lparr>open_span = Some (new_span c i), emitted = close_open st\<rparr>"
| "scan_tag st i (Inside c) =
     (case open_span st of
        Some sp \<Rightarrow>
          if span_category sp = c then st\<lparr>open_span := Some (sp\<lparr>end_index := i\<rparr>)\<rparr>
          else \<lparr>open_span = Some (new_span c i), emitted = close_open st\<rparr>
      | None \<Rightarrow> \<lparr>open_span = Some (new_span c i), emitted = close_open st\<rparr>)"

text \<open>Modelled from the spec: the left-to-right scan of the missing extractor.\<close>

fun scan :: "extractor \<Rightarrow> nat \<Rightarrow> tag list \<Rightarrow> extractor" where
  "scan st i [] = st"
| "scan st i (t # ts) = scan (scan_tag st i t) (Suc i) ts"

text \<open>
  Modelled from the spec: the missing extractor; at the end of the sequence a span
  still open is closed.
\<close>

definition extract_spans :: "tag list \<Rightarrow> span list" where
  "extract_spans ts = close_open (scan extractor_init 0 ts)"

text \<open>
  Modelled from the spec: the re-encoding of spans as tags named in sections 4.2 and 8,
  of which the spec gives only the meaning of the three tags: the first token of a span
  is \<open>B-\<close>, its other tokens are \<open>I-\<close>, every token outside all spans is \<open>O\<close>. The
  number of tokens is an argument.
\<close>

fun tag_at :: "span list \<Rightarrow> nat \<Rightarrow> tag" where
  "tag_at [] i = Outside"
| "tag_at (sp # sps) i =
     (if i = start_index sp then Begin (span_category sp)
      else if start_index sp < i \<and> i \<le> end_index sp then Inside (span_category sp)
      else tag_at sps i)"

definition encode_spans :: "nat \<Rightarrow> span list \<Rightarrow> tag list" where
  "encode_spans n sps = map (tag_at sps) [0..<n]"

subsection \<open>Span Matcher (section 4.3)\<close>

datatype policy = Strict | Partial

text \<open>
  Modelled from the spec: the overlap of the missing matcher, the number of tokens two
  index ranges share.
\<close>

definition overlap :: "span \<Rightarrow> span \<Rightarrow> nat" where
  "overlap g p =
     (let lo = max (start_index g) (start_index p);
          hi = min (end_index g) (end_index p)
      in if lo \<le> hi then Suc (hi - lo) else 0)"

text \<open>
  Modelled from the spec: when a gold and a predicted span can be paired by the missing
  matcher. Strict: equal. Partial: same category and at least one shared token.
\<close>

fun matches :: "policy \<Rightarrow> span \<Rightarrow> span \<Rightarrow> bool" where
  "matches Strict g p = (g = p)"
| "matches Partial g p = (span_category g = span_category p \<and> 0 < overlap g p)"

text \<open>
  Modelled from the spec: the candidate pairs of the missing matcher, as positions in
  the two span lists, so that equal spans stay distinct units.
\<close>

definition candidates :: "policy \<Rightarrow> span list \<Rightarrow> span list \<Rightarrow> (nat \<times> nat) list" where
  "candidates pol gs ps =
     [(i, j). i \<leftarrow> [0..<length gs], j \<leftarrow> [0..<length ps], matches pol (gs ! i) (ps ! j)]"

text \<open>
  Modelled from the spec: the sort key of the missing matcher's partial policy, overlap
  descending, then gold start and predicted start ascending.
\<close>

definition candidate_key :: "span list \<Rightarrow> span list \<Rightarrow> nat \<times> nat \<Rightarrow> int \<times> nat \<times> nat" where
  "candidate_key gs ps ij =
     (- int (overlap (gs ! fst ij) (ps ! snd ij)),
      start_index (gs ! fst ij), start_index (ps ! snd ij))"

text \<open>
  Modelled from the spec: the greedy pass of the missing matcher, which accepts a pair
  when neither side is matched yet.
\<close>

fun greedy :: "(nat \<times> nat) list \<Rightarrow> (nat \<times> nat) list \<Rightarrow> (nat \<times> nat) list" where
  "greedy acc [] = acc"
| "greedy acc (ij # rest) =
     (if fst ij \<in> set (map fst acc) \<or> snd ij \<in> set (map snd acc) then greedy acc rest
      else greedy (acc @ [ij]) rest)"

text \<open>
  Modelled from the spec: the missing matcher for one sentence and one policy. The
  strict candidates pair off in their stable order; the partial ones are sorted first.
\<close>

definition match_spans :: "policy \<Rightarrow> span list \<Rightarrow> span list \<Rightarrow> (nat \<times> nat) list" where
  "match_spans pol gs ps =
     greedy []
       (case pol of
          Strict \<Rightarrow> candidates Strict gs ps
        | Partial \<Rightarrow> sort_key (candidate_key gs ps) (candidates Partial gs ps))"

subsection \<open>Score Aggregator (section 4.4)\<close>

text \<open>Modelled from the spec: the CategoryCounts of the missing aggregator (section 3).\<close>

record counts =
  true_positive :: nat
  false_positive :: nat
  false_negative :: nat

definition zero_counts :: counts where
  "zero_counts = \<lparr>true_positive = 0, false_positive = 0, false_negative = 0\<rparr>"

definition add_counts :: "counts \<Rightarrow> counts \<Rightarrow> counts" where
  "add_counts a b =
     \<lparr>true_positive = true_positive a + true_positive b,
      false_positive = false_positive a + false_positive b,
      false_negative = false_negative a + false_negative b\<rparr>"

text \<open>
  Modelled from the spec: what one sentence adds for one category in the missing
  matcher's output: the matched gold spans of the category, the unmatched predicted
  spans of the category and the unmatched gold spans of the category.
\<close>

definition sentence_counts :: "policy \<Rightarrow> span list \<Rightarrow> span list \<Rightarrow> category \<Rightarrow> counts" where
  "sentence_counts pol gs ps c =
     (let m = match_spans pol gs ps;
          gold_c = filter (\<lambda>i. span_category (gs ! i) = c) [0..<length gs];
          pred_c = filter (\<lambda>j. span_category (ps ! j) = c) [0..<length ps]
      in \<lparr>true_positive = length (filter (\<lambda>i. i \<in> set (map fst m)) gold_c),
          false_positive = length (filter (\<lambda>j. j \<notin> set (map snd m)) pred_c),
          false_negative = length (filter (\<lambda>i. i \<notin> set (map fst m)) gold_c)\<rparr>)"

text \<open>
  Modelled from the spec: the running counters of the missing aggregator for one
  policy, one CategoryCounts per category and the aggregate one.
\<close>

record totals =
  per_category :: "category \<Rightarrow> counts"
  aggregate :: counts

definition totals_init :: totals where
  "totals_init = \<lparr>per_category = (\<lambda>c. zero_counts), aggregate = zero_counts\<rparr>"

text \<open>
  Modelled from the spec: the increment of the missing aggregator, applied to the
  category's counters and to the aggregate's.
\<close>

definition increment :: "category \<Rightarrow> counts \<Rightarrow> totals \<Rightarrow> totals" where
  "increment c k t =
     \<lparr>per_category = (per_category t)(c := add_counts (per_category t c) k),
      aggregate = add_counts (aggregate t) k\<rparr>"

text \<open>
  Modelled from the spec: the missing aggregator folds in one sentence, given as its
  gold and its predicted tag sequence, category by category.
\<close>

definition add_sentence :: "policy \<Rightarrow> tag list \<times> tag list \<Rightarrow> totals \<Rightarrow> totals" where
  "add_sentence pol s t =
     fold (\<lambda>c. increment c (sentence_counts pol (extract_spans (fst s)) (extract_spans (snd s)) c))
       categories t"

text \<open>
  Modelled from the spec: the missing aggregator over a corpus pair that passed the
  alignment checks, a list of sentences each with its gold and predicted tags.
\<close>

definition accumulate :: "policy \<Rightarrow> (tag list \<times> tag list) list \<Rightarrow> totals" where
  "accumulate pol sents = fold (add_sentence pol) sents totals_init"

text \<open>
  Modelled from the spec: the derived metrics of the missing aggregator, each 0 when
  its denominator is 0. The scores are exact real numbers here, not floating-point
  values.
\<close>

definition precision :: "counts \<Rightarrow> real" where
  "precision k =
     (if true_positive k + false_positive k = 0 then 0
      else of_nat (true_positive k) / of_nat (true_positive k + false_positive k))"

definition recall :: "counts \<Rightarrow> real" where
  "recall k =
     (if true_positive k + false_negative k = 0 then 0
      else of_nat (true_positive k) / of_nat (true_positive k + false_negative k))"

definition f1 :: "counts \<Rightarrow> real" where
  "f1 k =
     (let p = precision k; r = recall k
      in if p + r = 0 then 0 else 2 * p * r / (p + r))"

subsection \<open>Report Writer (sections 4.5 and 6)\<close>

text \<open>Modelled from the spec: the lowercased category names of the missing writer.\<close>

definition category_name :: "category \<Rightarrow> string" where
  "category_name c =
     (case c of Aspect \<Rightarrow> ''aspect'' | Object \<Rightarrow> ''object'' | Predicate \<Rightarrow> ''predicate'')"

text \<open>
  Modelled from the spec: the key suffix of the missing writer, \<open>_strict\<close> for the
  strict policy and nothing for the partial one.
\<close>

definition policy_suffix :: "policy \<Rightarrow> string" where
  "policy_suffix pol = (case pol of Strict \<Rightarrow> ''_strict'' | Partial \<Rightarrow> '''')"

text \<open>
  Modelled from the spec: the keys and values the missing writer renders for one
  policy, the average first and then one entry per category.
\<close>

definition report_entries :: "policy \<Rightarrow> totals \<Rightarrow> (string \<times> real) list" where
  "report_entries pol t =
     (''f1_average'' @ policy_suffix pol, f1 (aggregate t)) #
     map (\<lambda>c. (''f1_'' @ category_name c @ policy_suffix pol, f1 (per_category t c))) categories"

text \<open>
  Modelled from the spec: the six-decimal rendering of the missing writer: the value
  times a million is rounded to the nearest integer, a tie going to the even one, and
  printed with the decimal point before its last six digits.
\<close>

definition digit_char :: "nat \<Rightarrow> char" where
  "digit_char d = ''0123456789'' ! (d mod 10)"

function show_nat :: "nat \<Rightarrow> string" where
  "show_nat n = (if n < 10 then [digit_char n] else show_nat (n div 10) @ [digit_char (n mod 10)])"
  by pat_completeness auto
termination
  by (relation "measure id") auto

declare show_nat.simps [simp del]

definition round_half_even :: "real \<Rightarrow> int" where
  "round_half_even x =
     (let fl = \<lfloor>x\<rfloor>; fr = x - of_int fl
      in if fr < 1 / 2 then fl
         else if 1 / 2 < fr then fl + 1
         else if even fl then fl else fl + 1)"

definition format6 :: "real \<Rightarrow> string" where
  "format6 v =
     (let n = nat (round_half_even (\<bar>v\<bar> * 1000000))
      in (if v < 0 then ''-'' else '''') @ show_nat (n div 1000000) @ ''.'' @
         map (\<lambda>k. digit_char (n div 10 ^ k)) [5, 4, 3, 2, 1, 0])"

text \<open>Modelled from the spec: one line of the missing writer, \<open>key: value\<close> and a newline.\<close>

definition render_line :: "string \<times> real \<Rightarrow> string" where
  "render_line kv = fst kv @ '': '' @ format6 (snd kv) @ [NL]"

text \<open>
  Modelled from the spec: the report the missing entry point writes for a corpus pair
  that passed the alignment checks: the strict block, then the partial block.
\<close>

definition report :: "(tag list \<times> tag list) list \<Rightarrow> string" where
  "report sents =
     concat (map (\<lambda>pol. concat (map render_line (report_entries pol (accumulate pol sents))))
       [Strict, Partial])"

section \<open>Notions used to state and prove the properties\<close>

text \<open>
  A tag sequence has no dangling \<open>I-\<close> tag when every \<open>I-<cat>\<close> comes right after a
  \<open>B-<cat>\<close> or an \<open>I-<cat>\<close>; the first argument is the tag before the sequence.
\<close>

fun no_dangling :: "tag option \<Rightarrow> tag list \<Rightarrow> bool" where
  "no_dangling prev [] = True"
| "no_dangling prev (t # ts) =
     ((case t of
         Inside c \<Rightarrow> prev = Some (Begin c) \<or> prev = Some (Inside c)
       | _ \<Rightarrow> True) \<and> no_dangling (Some t) ts)"


text \<open>Index \<open>j\<close> gets a tag other than \<open>O\<close> from one of the spans.\<close>

definition covered :: "span list \<Rightarrow> nat \<Rightarrow> bool" where
  "covered sps j =
     list_ex (\<lambda>sp. j = start_index sp \<or> (start_index sp < j \<and> j \<le> end_index sp)) sps"

text \<open>
  The invariant of the scan before index \<open>i\<close>: every span lies below \<open>i\<close>, and the open
  span ends at the previous index.
\<close>

definition scanned :: "extractor \<Rightarrow> nat \<Rightarrow> bool" where
  "scanned st i =
     (list_all (\<lambda>sp. start_index sp \<le> end_index sp \<and> end_index sp < i) (close_open st) \<and>
      (case open_span st of
         None \<Rightarrow> True
       | Some sp \<Rightarrow> Suc (end_index sp) = i \<and> start_index sp \<le> end_index sp))"

text \<open>After a \<open>B-\<close> or \<open>I-\<close> tag of a category, a span of that category is open.\<close>

definition continues :: "tag option \<Rightarrow> extractor \<Rightarrow> bool" where
  "continues prev st =
     (case prev of
        Some (Begin c) \<Rightarrow> (case open_span st of None \<Rightarrow> False | Some sp \<Rightarrow> span_category sp = c)
      | Some (Inside c) \<Rightarrow> (case open_span st of None \<Rightarrow> False | Some sp \<Rightarrow> span_category sp = c)
      | _ \<Rightarrow> True)"

definition tag_allowed :: "tag option \<Rightarrow> tag \<Rightarrow> bool" where
  "tag_allowed prev t =
     (case t of
        Inside c \<Rightarrow> prev = Some (Begin c) \<or> prev = Some (Inside c)
      | _ \<Rightarrow> True)"

text \<open>
  An asymmetric corpus of one sentence: the gold tags hold an Object and an Aspect
  span, the predicted tags only the Object span.
\<close>

definition example_corpus :: "(tag list \<times> tag list) list" where
  "example_corpus = [([Begin Object, Begin Aspect], [Begin Object, Outside])]"

text \<open>
  The shape of a rendered value: decimal digits, at least one, then a point, then
  exactly six decimal digits.
\<close>

definition is_digit :: "char \<Rightarrow> bool" where
  "is_digit ch = (ch \<in> set ''0123456789'')"

definition six_decimals :: "string \<Rightarrow> bool" where
  "six_decimals s =
     (let whole = takeWhile (\<lambda>ch. ch \<noteq> CHR ''.'') s;
          rest = dropWhile (\<lambda>ch. ch \<noteq> CHR ''.'') s
      in whole \<noteq> [] \<and> list_all is_digit whole \<and> length rest = 7 \<and> list_all is_digit (tl rest))"

text \<open>The eight lines printed by cell 13, each without its newline.\<close>

definition recorded_scores :: "string list" where
  "recorded_scores =
     [''f1_average_strict: 0.437729'',
      ''f1_aspect_strict: 0.128834'',
      ''f1_object_strict: 0.354149'',
      ''f1_predicate_strict: 0.812500'',
      ''f1_average: 0.452591'',
      ''f1_aspect: 0.158998'',
      ''f1_object: 0.360194'',
      ''f1_predicate: 0.835016'']"

section \<open>Splitting and malformed lines\<close>

lemma split_length: "length (split sep s) = Suc (count_list s sep)"
  by (induction s) (auto split: list.splits)

lemma split_nonempty: "split sep s \<noteq> []"
  by (induction s) (auto split: list.splits)

lemma split_no_sep: "sep \<notin> set s \<Longrightarrow> split sep s = [s]"
  by (induction s) (auto split: list.splits)

lemma split_one_sep:
  "sep \<notin> set a \<Longrightarrow> split sep (a @ sep # b) = a # split sep b"
  by (induction a) (auto split: list.splits simp: split_nonempty)

lemma read_line_error: "read_line st l = Inl e \<Longrightarrow> e = ValueError"
  by (auto simp: read_line_def split: if_splits list.splits)

lemma read_line_malformed:
  "\<not> isspace l \<Longrightarrow> count_list l TAB \<noteq> 1 \<Longrightarrow> read_line st l = Inl ValueError"
proof -
  assume a: "\<not> isspace l" "count_list l TAB \<noteq> 1"
  have "length (split TAB l) \<noteq> 2" using a(2) by (simp add: split_length)
  then show ?thesis using a(1)
    by (auto simp: read_line_def split: list.splits)
qed

lemma read_lines_malformed:
  "l \<in> set ls \<Longrightarrow> \<not> isspace l \<Longrightarrow> count_list l TAB \<noteq> 1 \<Longrightarrow> read_lines st ls = Inl ValueError"
proof (induction ls arbitrary: st)
  case Nil
  then show ?case by simp
next
  case (Cons a ls)
  show ?case
  proof (cases "read_line st a")
    case (Inl e)
    then show ?thesis using read_line_error[OF Inl] by simp
  next
    case (Inr st')
    then have "a \<noteq> l" using Cons.prems read_line_malformed[of l st] by auto
    then have "l \<in> set ls" using Cons.prems by simp
    then show ?thesis using Cons.IH[of st'] Cons.prems Inr by simp
  qed
qed

section \<open>Blank lines and stripping\<close>

lemma read_line_blank:
  "isspace l \<Longrightarrow> read_line st l = Inr \<lparr>data = data st @ [(sentence st, tags st)], sentence = [], tags = []\<rparr>"
  by (simp add: read_line_def)

lemma read_line_nonblank:
  "\<not> isspace l \<Longrightarrow> read_line st l = Inr st' \<Longrightarrow>
     data st' = data st \<and> (\<exists>w t. sentence st' = sentence st @ [w] \<and> tags st' = tags st @ [t])"
  by (auto simp: read_line_def split: list.splits)

lemma read_lines_empty_sentence:
  "read_lines st ls = Inr st' \<Longrightarrow>
     (list_ex (\<lambda>s. fst s = []) (data st') \<longleftrightarrow>
      list_ex (\<lambda>s. fst s = []) (data st) \<or> blank_on_empty (sentence st = []) ls)"
proof (induction ls arbitrary: st)
  case Nil
  then show ?case by simp
next
  case (Cons l ls)
  then obtain st1 where s1: "read_line st l = Inr st1" and r: "read_lines st1 ls = Inr st'"
    by (auto split: sum.splits)
  show ?case
  proof (cases "isspace l")
    case True
    then have "st1 = \<lparr>data = data st @ [(sentence st, tags st)], sentence = [], tags = []\<rparr>"
      using s1 by (simp add: read_line_blank)
    then show ?thesis using Cons.IH[OF r] True by auto
  next
    case False
    then show ?thesis using Cons.IH[OF r] read_line_nonblank[OF False s1] by auto
  qed
qed

lemma blank_on_empty_iff:
  "blank_on_empty e ls \<longleftrightarrow>
     (e \<and> ls \<noteq> [] \<and> isspace (hd ls)) \<or>
     (\<exists>i. Suc i < length ls \<and> isspace (ls ! i) \<and> isspace (ls ! Suc i))"
proof (induction ls arbitrary: e)
  case Nil
  then show ?case by simp
next
  case (Cons l ls)
  have shift: "(\<exists>i. Suc i < length (l # ls) \<and> isspace ((l # ls) ! i) \<and> isspace ((l # ls) ! Suc i)) \<longleftrightarrow>
     (isspace l \<and> ls \<noteq> [] \<and> isspace (hd ls)) \<or>
     (\<exists>i. Suc i < length ls \<and> isspace (ls ! i) \<and> isspace (ls ! Suc i))" (is "?L \<longleftrightarrow> ?A \<or> ?B")
  proof
    assume ?L
    then obtain i where i: "Suc i < length (l # ls)" "isspace ((l # ls) ! i)" "isspace ((l # ls) ! Suc i)"
      by blast
    show "?A \<or> ?B"
    proof (cases i)
      case 0
      then show ?thesis using i by (cases ls) auto
    next
      case (Suc j)
      then show ?thesis using i by auto
    qed
  next
    assume "?A \<or> ?B"
    then show ?L
    proof
      assume ?A
      then have "Suc 0 < length (l # ls) \<and> isspace ((l # ls) ! 0) \<and> isspace ((l # ls) ! Suc 0)"
        by (cases ls) auto
      then show ?L by blast
    next
      assume ?B
      then obtain i where "Suc i < length ls" "isspace (ls ! i)" "isspace (ls ! Suc i)" by blast
      then have "Suc (Suc i) < length (l # ls) \<and> isspace ((l # ls) ! Suc i) \<and> isspace ((l # ls) ! Suc (Suc i))"
        by simp
      then show ?L by blast
    qed
  qed
  show ?case using Cons.IH[of True] Cons.IH[of False] shift by auto
qed



lemma dropWhile_hd: "xs \<noteq> [] \<Longrightarrow> \<not> P (hd xs) \<Longrightarrow> dropWhile P xs = xs"
  by (cases xs) auto

lemma strip_id:
  "t \<noteq> [] \<Longrightarrow> \<not> isspace_char (hd t) \<Longrightarrow> \<not> isspace_char (last t) \<Longrightarrow> strip t = t"
proof -
  assume a: "t \<noteq> []" "\<not> isspace_char (hd t)" "\<not> isspace_char (last t)"
  have 1: "dropWhile isspace_char t = t" using a by (simp add: dropWhile_hd)
  have "hd (rev t) = last t" using a by (simp add: hd_rev)
  then have 2: "dropWhile isspace_char (rev t) = rev t" using a by (simp add: dropWhile_hd)
  show ?thesis by (simp add: strip_def 1 2)
qed

lemma strip_snoc_space: "isspace_char c \<Longrightarrow> strip (s @ [c]) = strip s"
proof (cases "dropWhile isspace_char s = []")
  case True
  assume c: "isspace_char c"
  from True have "\<forall>x\<in>set s. isspace_char x" by (simp only: dropWhile_eq_Nil_conv)
  then have "\<forall>x\<in>set (s @ [c]). isspace_char x" using c by simp
  then have e: "dropWhile isspace_char (s @ [c]) = []" by (simp only: dropWhile_eq_Nil_conv)
  show ?thesis unfolding strip_def True e by simp
next
  case False
  assume c: "isspace_char c"
  from False obtain x where x: "x \<in> set s" "\<not> isspace_char x" by auto
  then have "dropWhile isspace_char (s @ [c]) = dropWhile isspace_char s @ [c]"
    by (simp add: dropWhile_append1)
  then show ?thesis using c by (simp add: strip_def)
qed

lemma NL_space: "isspace_char NL"
  by (simp add: isspace_char_def)

lemma read_line_pair:
  assumes "\<not> isspace (tok @ TAB # tg)" "TAB \<notin> set tok" "TAB \<notin> set tg"
  shows "read_line st (tok @ TAB # tg) =
           Inr (st\<lparr>sentence := sentence st @ [tok], tags := tags st @ [strip tg]\<rparr>)"
  using assms by (simp add: read_line_def split_one_sep split_no_sep)




section \<open>The written file read back\<close>

lemma universal_newlines_id: "CR \<notin> set s \<Longrightarrow> universal_newlines s = s"
  by (induction s rule: universal_newlines.induct) auto

lemma file_lines_line: "NL \<notin> set l \<Longrightarrow> file_lines (l @ NL # rest) = (l @ [NL]) # file_lines rest"
  by (induction l) (auto split: list.splits)

lemma write_sentence_eq: "write_sentence toks tgs = concat (map line_of (zip toks tgs)) @ [NL]"
proof -
  have "(\<lambda>(i, y). i @ [TAB] @ y @ [NL]) = line_of" by (auto simp: line_of_def fun_eq_iff)
  then show ?thesis by (simp add: write_sentence_def)
qed

lemma file_lines_token_lines:
  "list_all (\<lambda>p. NL \<notin> set (fst p) \<and> NL \<notin> set (snd p)) ps \<Longrightarrow>
   file_lines (concat (map line_of ps) @ rest) = map line_of ps @ file_lines rest"
proof (induction ps)
  case Nil
  then show ?case by simp
next
  case (Cons p ps)
  then have n: "NL \<notin> set (fst p @ [TAB] @ snd p)" by simp
  have lp: "line_of p = (fst p @ [TAB] @ snd p) @ [NL]" by (simp add: line_of_def)
  have "file_lines (concat (map line_of (p # ps)) @ rest) =
        file_lines ((fst p @ [TAB] @ snd p) @ NL # (concat (map line_of ps) @ rest))"
    by (simp add: lp)
  also have "\<dots> = ((fst p @ [TAB] @ snd p) @ [NL]) # file_lines (concat (map line_of ps) @ rest)"
    using n by (rule file_lines_line)
  also have "\<dots> = line_of p # map line_of ps @ file_lines rest"
    using Cons by (simp add: lp)
  finally show ?case by simp
qed

lemma zip_ok_NL:
  "list_all token_ok toks \<Longrightarrow> list_all tag_ok tgs \<Longrightarrow>
   list_all (\<lambda>p. NL \<notin> set (fst p) \<and> NL \<notin> set (snd p)) (zip toks tgs)"
  by (auto simp: list_all_iff token_ok_def tag_ok_def dest: set_zip_leftD set_zip_rightD)

lemma file_lines_write_sentences:
  "list_all sentence_ok sents \<Longrightarrow>
   file_lines (write_sentences sents) =
     concat (map (\<lambda>s. map line_of (zip (fst s) (snd s)) @ [[NL]]) sents)"
proof (induction sents)
  case Nil
  then show ?case by (simp add: write_sentences_def)
next
  case (Cons s sents)
  obtain toks tgs where s: "s = (toks, tgs)" by (cases s)
  have ok: "list_all (\<lambda>p. NL \<notin> set (fst p) \<and> NL \<notin> set (snd p)) (zip toks tgs)"
    using Cons.prems s by (simp add: sentence_ok_def zip_ok_NL)
  have "write_sentences (s # sents) =
          concat (map line_of (zip toks tgs)) @ (NL # write_sentences sents)"
    by (simp add: write_sentences_def write_sentence_eq s)
  then have "file_lines (write_sentences (s # sents)) =
          map line_of (zip toks tgs) @ file_lines (NL # write_sentences sents)"
    using file_lines_token_lines[OF ok] by simp
  then show ?case using Cons s by simp
qed

lemma read_lines_append:
  "read_lines st (a @ b) = (case read_lines st a of Inl e \<Rightarrow> Inl e | Inr st' \<Rightarrow> read_lines st' b)"
  by (induction a arbitrary: st) (auto split: sum.splits)

lemma read_line_line_of:
  assumes "token_ok tok" "tag_ok tg"
  shows "read_line st (line_of (tok, tg)) =
           Inr (st\<lparr>sentence := sentence st @ [tok], tags := tags st @ [tg]\<rparr>)"
proof -
  have ns: "\<not> isspace (tok @ TAB # tg @ [NL])"
    using assms(2) by (cases tg) (auto simp: isspace_def tag_ok_def)
  have t: "TAB \<notin> set tok" "TAB \<notin> set (tg @ [NL])" using assms by (auto simp: token_ok_def tag_ok_def)
  have "strip (tg @ [NL]) = tg"
    using assms(2) by (simp add: strip_snoc_space NL_space strip_id tag_ok_def)
  then show ?thesis using read_line_pair[OF ns t, of st] by (simp add: line_of_def)
qed

lemma read_lines_token_lines:
  "length toks = length tgs \<Longrightarrow> list_all token_ok toks \<Longrightarrow> list_all tag_ok tgs \<Longrightarrow>
   read_lines st (map line_of (zip toks tgs)) =
     Inr (st\<lparr>sentence := sentence st @ toks, tags := tags st @ tgs\<rparr>)"
proof (induction toks tgs arbitrary: st rule: list_induct2)
  case Nil
  then show ?case by simp
next
  case (Cons tok toks tg tgs)
  then show ?case by (simp add: read_line_line_of)
qed

lemma read_line_NL:
  "read_line st [NL] = Inr \<lparr>data = data st @ [(sentence st, tags st)], sentence = [], tags = []\<rparr>"
  by (simp add: read_line_blank isspace_def NL_space)

lemma read_lines_sentences:
  "list_all sentence_ok sents \<Longrightarrow> sentence st = [] \<Longrightarrow> tags st = [] \<Longrightarrow>
   read_lines st (concat (map (\<lambda>s. map line_of (zip (fst s) (snd s)) @ [[NL]]) sents)) =
     Inr \<lparr>data = data st @ sents, sentence = [], tags = []\<rparr>"
proof (induction sents arbitrary: st)
  case Nil
  then show ?case by simp
next
  case (Cons s sents)
  have ok: "length (fst s) = length (snd s)" "list_all token_ok (fst s)" "list_all tag_ok (snd s)"
    using Cons.prems(1) by (simp_all add: sentence_ok_def)
  let ?st1 = "\<lparr>data = data st @ [s], sentence = [], tags = []\<rparr>"
  let ?A = "map line_of (zip (fst s) (snd s)) @ [[NL]]"
  let ?R = "concat (map (\<lambda>s. map line_of (zip (fst s) (snd s)) @ [[NL]]) sents)"
  have step: "read_lines st ?A = Inr ?st1"
    using read_lines_token_lines[OF ok, of st] Cons.prems(2,3)
    by (simp add: read_lines_append read_line_NL)
  have rest: "read_lines ?st1 ?R = Inr \<lparr>data = data ?st1 @ sents, sentence = [], tags = []\<rparr>"
    using Cons.prems(1) by (intro Cons.IH) simp_all
  have "read_lines st (concat (map (\<lambda>s. map line_of (zip (fst s) (snd s)) @ [[NL]]) (s # sents)))
        = read_lines st (?A @ ?R)" by simp
  also have "\<dots> = read_lines ?st1 ?R"
    by (simp only: read_lines_append[of st ?A ?R] step sum.case)
  finally show ?case using rest by simp
qed

lemma write_sentences_no_CR:
  "list_all sentence_ok sents \<Longrightarrow> CR \<notin> set (write_sentences sents)"
  by (auto simp: write_sentences_def write_sentence_def list_all_iff sentence_ok_def token_ok_def tag_ok_def
      dest: set_zip_leftD set_zip_rightD)

lemma read_written:
  assumes "list_all sentence_ok sents"
  shows "read_dataset (write_sentences sents) = Inr sents"
proof -
  have "universal_newlines (write_sentences sents) = write_sentences sents"
    using assms by (intro universal_newlines_id write_sentences_no_CR)
  then show ?thesis
    using file_lines_write_sentences[OF assms] read_lines_sentences[OF assms, of reader_init]
    by (simp add: read_dataset_def read_dataset_lines_def reader_init_def)
qed

lemma idx_to_tag_Some: "idx_to_tag i = Some t \<Longrightarrow> t \<in> set closed_tags \<and> tag_to_ix t = Some i"
  by (auto simp: idx_to_tag_def tag_to_ix_def dict_def tag_to_ix_items_def closed_tags_def split: if_splits)

lemma tag_to_ix_Some: "t \<in> set closed_tags \<Longrightarrow> \<exists>i. tag_to_ix t = Some i \<and> idx_to_tag i = Some t"
  by (auto simp: idx_to_tag_def tag_to_ix_def dict_def tag_to_ix_items_def closed_tags_def)

lemma lookup_tags_closed: "lookup_tags is = Inr ts \<Longrightarrow> length ts = length is \<and> set ts \<subseteq> set closed_tags"
proof (induction "is" arbitrary: ts)
  case Nil
  then show ?case by simp
next
  case (Cons i "is")
  then show ?case using idx_to_tag_Some[of i]
    by (auto split: option.splits sum.splits)
qed

lemma inference_closed:
  "\<exists>tagss. length tagss \<le> length sents \<and>
     fst (inference predict sents) = write_sentences (zip (map fst sents) tagss) \<and>
     list_all (\<lambda>ts. set ts \<subseteq> set closed_tags) tagss \<and>
     (snd (inference predict sents) = None \<longrightarrow> length tagss = length sents)"
proof (induction sents)
  case Nil
  have "length ([] :: string list list) \<le> length ([] :: sentence_tags list) \<and>
        fst (inference predict []) = write_sentences (zip (map fst []) []) \<and>
        list_all (\<lambda>ts. set ts \<subseteq> set closed_tags) [] \<and>
        (snd (inference predict []) = None \<longrightarrow> length ([] :: string list list) = length ([] :: sentence_tags list))"
    by (simp add: write_sentences_def)
  then show ?case by (rule exI)
next
  case (Cons s sents)
  have stop: ?case if i: "inference predict (s # sents) = ([], Some e)" for e
  proof -
    have "length ([] :: string list list) \<le> length (s # sents) \<and>
        fst (inference predict (s # sents)) = write_sentences (zip (map fst (s # sents)) []) \<and>
        list_all (\<lambda>ts. set ts \<subseteq> set closed_tags) [] \<and>
        (snd (inference predict (s # sents)) = None \<longrightarrow> length ([] :: string list list) = length (s # sents))"
      unfolding i by (simp add: write_sentences_def)
    then show ?thesis by (rule exI)
  qed
  show ?case
  proof (cases "fst s = []")
    case True
    then have "inference predict (s # sents) = ([], Some RuntimeError)" by simp
    then show ?thesis by (rule stop)
  next
    case False
    show ?thesis
    proof (cases "lookup_tags (predict (fst s))")
      case (Inl e)
      then have "inference predict (s # sents) = ([], Some e)" using False by simp
      then show ?thesis by (rule stop)
    next
      case (Inr tgs)
      obtain out err where r: "inference predict sents = (out, err)" by (cases "inference predict sents")
      have i: "inference predict (s # sents) = (write_sentence (fst s) tgs @ out, err)"
        using False by (simp add: Inr r)
      from Cons.IH obtain tagss where t: "length tagss \<le> length sents"
        "out = write_sentences (zip (map fst sents) tagss)"
        "list_all (\<lambda>ts. set ts \<subseteq> set closed_tags) tagss"
        "err = None \<longrightarrow> length tagss = length sents"
        unfolding r fst_conv snd_conv by blast
      have c: "set tgs \<subseteq> set closed_tags" using lookup_tags_closed[OF Inr] by simp
      have w: "write_sentences (zip (map fst (s # sents)) (tgs # tagss)) =
                 write_sentence (fst s) tgs @ write_sentences (zip (map fst sents) tagss)"
        by (simp add: write_sentences_def)
      have "length (tgs # tagss) \<le> length (s # sents) \<and>
          fst (inference predict (s # sents)) = write_sentences (zip (map fst (s # sents)) (tgs # tagss)) \<and>
          list_all (\<lambda>ts. set ts \<subseteq> set closed_tags) (tgs # tagss) \<and>
          (snd (inference predict (s # sents)) = None \<longrightarrow> length (tgs # tagss) = length (s # sents))"
        unfolding i w fst_conv snd_conv using t c by simp
      then show ?thesis by (rule exI)
    qed
  qed
qed

lemma universal_newlines_no_CR: "CR \<notin> set (universal_newlines s)"
  by (induction s rule: universal_newlines.induct) auto

lemma file_lines_subset: "l \<in> set (file_lines s) \<Longrightarrow> set l \<subseteq> set s"
proof (induction s arbitrary: l)
  case Nil
  then show ?case by simp
next
  case (Cons c cs)
  show ?case
  proof (cases "c = NL")
    case True
    then show ?thesis using Cons by auto
  next
    case False
    show ?thesis
    proof (cases "file_lines cs")
      case Nil
      then show ?thesis using Cons.prems False by auto
    next
      case (Cons m ms)
      then have m: "set m \<subseteq> set cs" and ms: "\<forall>x\<in>set ms. set x \<subseteq> set cs"
        using Cons.IH by auto
      from Cons.prems False Cons have "l = c # m \<or> l \<in> set ms" by auto
      then show ?thesis using m ms by auto
    qed
  qed
qed

lemma file_lines_NL: "l \<in> set (file_lines s) \<Longrightarrow> NL \<notin> set (butlast l)"
proof (induction s arbitrary: l)
  case Nil
  then show ?case by simp
next
  case (Cons c cs)
  show ?case
  proof (cases "c = NL")
    case True
    then show ?thesis using Cons by auto
  next
    case False
    show ?thesis
    proof (cases "file_lines cs")
      case Nil
      then show ?thesis using Cons.prems False by auto
    next
      case (Cons m ms)
      then have m: "NL \<notin> set (butlast m)" and ms: "\<forall>x\<in>set ms. NL \<notin> set (butlast x)"
        using Cons.IH by auto
      from Cons.prems False Cons have "l = c # m \<or> l \<in> set ms" by auto
      then show ?thesis using m ms False by (auto split: if_splits)
    qed
  qed
qed

lemma file_lines_ok: "list_all line_ok (file_lines (universal_newlines content))"
proof -
  have "line_ok l" if "l \<in> set (file_lines (universal_newlines content))" for l
    using file_lines_NL[OF that] file_lines_subset[OF that] universal_newlines_no_CR[of content]
    by (auto simp: line_ok_def)
  then show ?thesis by (simp add: list_all_iff)
qed

lemma split_one: "split sep s = [b] \<Longrightarrow> s = b"
proof (induction s arbitrary: b)
  case Nil
  then show ?case by simp
next
  case (Cons c cs)
  show ?case
  proof (cases "c = sep")
    case True
    then show ?thesis using Cons.prems by (simp add: split_nonempty)
  next
    case False
    then obtain w where w: "split sep cs = [w]" "b = c # w"
      using Cons.prems split_nonempty[of sep cs] by (auto split: list.splits)
    from Cons.IH[OF w(1)] show ?thesis using w(2) by simp
  qed
qed

lemma split_two: "split sep s = [a, b] \<Longrightarrow> s = a @ sep # b \<and> sep \<notin> set a"
proof (induction s arbitrary: a)
  case Nil
  then show ?case by simp
next
  case (Cons c cs)
  show ?case
  proof (cases "c = sep")
    case True
    then have "split sep cs = [b]" "a = []" using Cons.prems by simp_all
    then show ?thesis using True split_one[of sep cs b] by simp
  next
    case False
    then obtain w where w: "split sep cs = [w, b]" "a = c # w"
      using Cons.prems split_nonempty[of sep cs] by (auto split: list.splits)
    from Cons.IH[OF w(1)] show ?thesis using w(2) False by simp
  qed
qed

lemma read_line_token_ok:
  assumes "read_line st l = Inr st'" "line_ok l" "list_all token_ok (sentence st)"
    "list_all (\<lambda>s. list_all token_ok (fst s)) (data st)"
  shows "list_all token_ok (sentence st') \<and> list_all (\<lambda>s. list_all token_ok (fst s)) (data st')"
proof (cases "isspace l")
  case True
  then have "st' = \<lparr>data = data st @ [(sentence st, tags st)], sentence = [], tags = []\<rparr>"
    using assms(1) by (simp add: read_line_blank)
  then show ?thesis using assms(3,4) by simp
next
  case False
  then obtain w t where s: "split TAB l = [w, t]"
    and st': "st' = st\<lparr>sentence := sentence st @ [w], tags := tags st @ [strip t]\<rparr>"
    using assms(1) by (auto simp: read_line_def split: list.splits)
  from split_two[OF s] have l: "l = w @ TAB # t" and nt: "TAB \<notin> set w" by simp_all
  have "set w \<subseteq> set (butlast l)" unfolding l by (simp add: butlast_append)
  then have "NL \<notin> set w" using assms(2) by (auto simp: line_ok_def)
  moreover have "CR \<notin> set w" using assms(2) unfolding l by (simp add: line_ok_def)
  ultimately have "token_ok w" using nt by (simp add: token_ok_def)
  then show ?thesis using assms(3,4) st' by simp
qed

lemma read_lines_token_ok:
  "read_lines st ls = Inr st' \<Longrightarrow> list_all line_ok ls \<Longrightarrow> list_all token_ok (sentence st) \<Longrightarrow>
   list_all (\<lambda>s. list_all token_ok (fst s)) (data st) \<Longrightarrow>
   list_all token_ok (sentence st') \<and> list_all (\<lambda>s. list_all token_ok (fst s)) (data st')"
proof (induction ls arbitrary: st)
  case Nil
  then show ?case by simp
next
  case (Cons l ls)
  then obtain st1 where s1: "read_line st l = Inr st1" and r: "read_lines st1 ls = Inr st'"
    by (auto split: sum.splits)
  have lo: "line_ok l" "list_all line_ok ls" using Cons.prems(2) by simp_all
  from read_line_token_ok[OF s1 lo(1) Cons.prems(3,4)]
  show ?case using Cons.IH[OF r lo(2)] by blast
qed

lemma read_dataset_tokens_ok:
  assumes "read_dataset content = Inr d"
  shows "list_all (\<lambda>s. list_all token_ok (fst s)) d"
proof -
  from assms obtain st where st: "read_lines reader_init (file_lines (universal_newlines content)) = Inr st"
    and d: "d = data st"
    by (auto simp: read_dataset_def read_dataset_lines_def split: sum.splits)
  from read_lines_token_ok[OF st file_lines_ok] show ?thesis using d by (simp add: reader_init_def)
qed

lemma idx_to_tag_range:
  assumes "0 \<le> i" "i < 7"
  shows "\<exists>t. idx_to_tag i = Some t \<and> tag_ok t"
proof -
  from assms have "i = 0 \<or> i = 1 \<or> i = 2 \<or> i = 3 \<or> i = 4 \<or> i = 5 \<or> i = 6" by arith
  then show ?thesis
    by (elim disjE) (simp_all add: idx_to_tag_def dict_def tag_to_ix_items_def tag_ok_def isspace_char_def)
qed

lemma lookup_tags_range:
  "list_all (\<lambda>i. 0 \<le> i \<and> i < 7) is \<Longrightarrow>
   \<exists>ts. lookup_tags is = Inr ts \<and> length ts = length is \<and> list_all tag_ok ts"
proof (induction "is")
  case Nil
  then show ?case by simp
next
  case (Cons i "is")
  then obtain ts where ts: "lookup_tags is = Inr ts" "length ts = length is" "list_all tag_ok ts" by auto
  from Cons.prems obtain t where t: "idx_to_tag i = Some t" "tag_ok t"
    using idx_to_tag_range[of i] by auto
  have "lookup_tags (i # is) = Inr (t # ts) \<and> length (t # ts) = length (i # is) \<and> list_all tag_ok (t # ts)"
    using ts t by simp
  then show ?case by blast
qed

lemma inference_writes:
  assumes "list_all (\<lambda>s. fst s \<noteq> []) sents" "tagger_ok predict sents"
  shows "inference predict sents = (write_sentences (map (predicted predict) sents), None)"
  using assms
proof (induction sents)
  case Nil
  then show ?case by (simp add: write_sentences_def)
next
  case (Cons s sents)
  from Cons.prems have ne: "fst s \<noteq> []" and r: "list_all (\<lambda>i. 0 \<le> i \<and> i < 7) (predict (fst s))"
    and rest: "list_all (\<lambda>s. fst s \<noteq> []) sents" "tagger_ok predict sents"
    by (simp_all add: tagger_ok_def)
  from lookup_tags_range[OF r] obtain ts where ts: "lookup_tags (predict (fst s)) = Inr ts" by blast
  then have t: "tags_of (predict (fst s)) = ts" by (simp add: tags_of_def)
  have w: "write_sentences (map (predicted predict) (s # sents)) =
             write_sentence (fst s) ts @ write_sentences (map (predicted predict) sents)"
    by (simp add: write_sentences_def predicted_def t)
  show ?case unfolding w using Cons.IH[OF rest] ne ts by simp
qed

lemma predicted_ok:
  assumes "list_all (\<lambda>s. list_all token_ok (fst s)) sents" "tagger_ok predict sents"
  shows "list_all sentence_ok (map (predicted predict) sents)"
proof -
  have "sentence_ok (predicted predict s)" if s: "s \<in> set sents" for s
  proof -
    from assms(2) s have l: "length (predict (fst s)) = length (fst s)"
      and r: "list_all (\<lambda>i. 0 \<le> i \<and> i < 7) (predict (fst s))"
      by (simp_all add: tagger_ok_def list_all_iff)
    from lookup_tags_range[OF r] obtain ts where ts: "lookup_tags (predict (fst s)) = Inr ts"
      "length ts = length (predict (fst s))" "list_all tag_ok ts" by blast
    then have t: "tags_of (predict (fst s)) = ts" by (simp add: tags_of_def)
    from assms(1) s have "list_all token_ok (fst s)" by (simp add: list_all_iff)
    then show ?thesis using ts l by (simp add: sentence_ok_def predicted_def t)
  qed
  then show ?thesis by (simp add: list_all_iff)
qed

section \<open>Decoding and re-encoding tag sequences\<close>

lemma tag_at_append:
  "tag_at (xs @ ys) j = (if covered xs j then tag_at xs j else tag_at ys j)"
  by (induction xs) (auto simp: covered_def)

lemma tag_at_uncovered: "\<not> covered xs j \<Longrightarrow> tag_at xs j = Outside"
  by (induction xs) (auto simp: covered_def)

lemma tag_at_snoc_outside:
  "tag_at [sp] j = Outside \<Longrightarrow> tag_at (xs @ [sp]) j = tag_at xs j"
  by (simp add: tag_at_append tag_at_uncovered del: tag_at.simps)

lemma covered_ends:
  "list_all (\<lambda>sp. start_index sp \<le> end_index sp \<and> end_index sp < i) xs \<Longrightarrow> \<not> covered xs i"
  by (induction xs) (auto simp: covered_def)

lemma scan_tag_outside:
  assumes "scanned st i"
  shows "scanned (scan_tag st i Outside) (Suc i)"
    and "tag_at (close_open (scan_tag st i Outside)) j = tag_at (close_open st) j"
    and "tag_at (close_open (scan_tag st i Outside)) i = Outside"
proof -
  have c: "close_open (scan_tag st i Outside) = close_open st" by (simp add: close_open_def)
  show "scanned (scan_tag st i Outside) (Suc i)"
    using assms unfolding scanned_def c by (auto simp: list_all_iff)
  show "tag_at (close_open (scan_tag st i Outside)) j = tag_at (close_open st) j" by (simp only: c)
  show "tag_at (close_open (scan_tag st i Outside)) i = Outside"
    unfolding c using assms by (simp add: scanned_def covered_ends tag_at_uncovered)
qed

lemma scan_tag_begin:
  assumes "scanned st i"
  shows "scanned (scan_tag st i (Begin c)) (Suc i)"
    and "j < i \<Longrightarrow> tag_at (close_open (scan_tag st i (Begin c))) j = tag_at (close_open st) j"
    and "tag_at (close_open (scan_tag st i (Begin c))) i = Begin c"
proof -
  have c: "close_open (scan_tag st i (Begin c)) = close_open st @ [new_span c i]"
    by (simp add: close_open_def)
  show "scanned (scan_tag st i (Begin c)) (Suc i)"
    using assms unfolding scanned_def c by (auto simp: list_all_iff new_span_def)
  show "j < i \<Longrightarrow> tag_at (close_open (scan_tag st i (Begin c))) j = tag_at (close_open st) j"
    unfolding c by (rule tag_at_snoc_outside) (simp add: new_span_def)
  have "\<not> covered (close_open st) i" using assms by (simp add: scanned_def covered_ends)
  then show "tag_at (close_open (scan_tag st i (Begin c))) i = Begin c"
    unfolding c by (simp add: tag_at_append new_span_def)
qed

lemma scan_tag_inside:
  assumes "scanned st i" and "open_span st = Some sp" and "span_category sp = c"
  shows "scanned (scan_tag st i (Inside c)) (Suc i)"
    and "j < i \<Longrightarrow> tag_at (close_open (scan_tag st i (Inside c))) j = tag_at (close_open st) j"
    and "tag_at (close_open (scan_tag st i (Inside c))) i = Inside c"
proof -
  have c: "close_open (scan_tag st i (Inside c)) = emitted st @ [sp\<lparr>end_index := i\<rparr>]"
    using assms(2,3) by (simp add: close_open_def)
  have c0: "close_open st = emitted st @ [sp]" using assms(2) by (simp add: close_open_def)
  have e: "list_all (\<lambda>sp. start_index sp \<le> end_index sp \<and> end_index sp < i) (emitted st)"
    "Suc (end_index sp) = i" "start_index sp \<le> end_index sp"
    using assms(1,2) by (simp_all add: scanned_def c0)
  show "scanned (scan_tag st i (Inside c)) (Suc i)"
    using e assms(2,3) unfolding scanned_def c by (auto simp: list_all_iff)
  show "j < i \<Longrightarrow> tag_at (close_open (scan_tag st i (Inside c))) j = tag_at (close_open st) j"
    unfolding c c0 using e(2) by (auto simp add: tag_at_append)
  have "\<not> covered (emitted st) i" using e(1) by (rule covered_ends)
  then show "tag_at (close_open (scan_tag st i (Inside c))) i = Inside c"
    unfolding c using e(2,3) assms(3) by (auto simp add: tag_at_append)
qed

lemma scan_tag_step:
  assumes "scanned st i" and "continues prev st" and "tag_allowed prev t"
  shows "scanned (scan_tag st i t) (Suc i) \<and> continues (Some t) (scan_tag st i t) \<and>
         tag_at (close_open (scan_tag st i t)) i = t \<and>
         (\<forall>j<i. tag_at (close_open (scan_tag st i t)) j = tag_at (close_open st) j)"
proof (cases t)
  case Outside
  have "continues (Some Outside) (scan_tag st i Outside)" by (simp add: continues_def)
  then show ?thesis unfolding Outside using scan_tag_outside[OF assms(1)] by blast
next
  case (Begin c)
  have "continues (Some (Begin c)) (scan_tag st i (Begin c))" by (simp add: continues_def new_span_def)
  then show ?thesis unfolding Begin using scan_tag_begin[OF assms(1), where c = c] by blast
next
  case (Inside c)
  then obtain sp where sp: "open_span st = Some sp" "span_category sp = c"
    using assms(2,3) by (auto simp: continues_def tag_allowed_def split: option.splits)
  have "continues (Some (Inside c)) (scan_tag st i (Inside c))" using sp by (simp add: continues_def)
  then show ?thesis unfolding Inside using scan_tag_inside[OF assms(1) sp] by blast
qed

lemma scan_tags:
  "scanned st i \<Longrightarrow> continues prev st \<Longrightarrow> no_dangling prev ts \<Longrightarrow>
     (\<forall>j<i. tag_at (close_open (scan st i ts)) j = tag_at (close_open st) j) \<and>
     (\<forall>k<length ts. tag_at (close_open (scan st i ts)) (i + k) = ts ! k)"
proof (induction ts arbitrary: st i prev)
  case Nil
  then show ?case by simp
next
  case (Cons t ts)
  let ?st = "scan_tag st i t"
  let ?fin = "close_open (scan ?st (Suc i) ts)"
  have fin: "close_open (scan st i (t # ts)) = ?fin" by simp
  have al: "tag_allowed prev t" and nd: "no_dangling (Some t) ts"
    using Cons.prems(3) by (simp_all add: tag_allowed_def)
  note step = scan_tag_step[OF Cons.prems(1,2) al]
  have s1: "scanned ?st (Suc i)" and s2: "continues (Some t) ?st"
    and s3: "tag_at (close_open ?st) i = t"
    using step by blast+
  have s4: "tag_at (close_open ?st) j = tag_at (close_open st) j" if "j < i" for j
    using step that by blast
  note ih = Cons.IH[OF s1 s2 nd]
  have i1: "tag_at ?fin j = tag_at (close_open ?st) j" if "j < Suc i" for j
    using ih that by blast
  have i2: "tag_at ?fin (Suc i + k) = ts ! k" if "k < length ts" for k
    using ih that by blast
  have a: "tag_at ?fin j = tag_at (close_open st) j" if "j < i" for j
  proof -
    have "tag_at ?fin j = tag_at (close_open ?st) j" using that by (intro i1) simp
    then show ?thesis using s4[OF that] by (rule trans)
  qed
  have b: "tag_at ?fin (i + k) = (t # ts) ! k" if "k < length (t # ts)" for k
  proof (cases k)
    case 0
    have "tag_at ?fin i = tag_at (close_open ?st) i" by (intro i1) simp
    then show ?thesis using s3 0 by simp
  next
    case (Suc m)
    then have "m < length ts" using that by simp
    from i2[OF this] show ?thesis using Suc by simp
  qed
  show ?case unfolding fin using a b by blast
qed

lemma encode_extract:
  assumes "no_dangling None ts"
  shows "encode_spans (length ts) (extract_spans ts) = ts"
proof -
  have s: "scanned extractor_init 0" by (simp add: scanned_def extractor_init_def close_open_def)
  have c: "continues None extractor_init" by (simp add: continues_def)
  have n: "tag_at (extract_spans ts) k = ts ! k" if "k < length ts" for k
  proof -
    have "tag_at (close_open (scan extractor_init 0 ts)) (0 + k) = ts ! k"
      using scan_tags[OF s c assms] that by blast
    then show ?thesis by (simp add: extract_spans_def)
  qed
  show ?thesis
  proof (rule nth_equalityI)
    show "length (encode_spans (length ts) (extract_spans ts)) = length ts"
      by (simp add: encode_spans_def)
  next
    fix k assume "k < length (encode_spans (length ts) (extract_spans ts))"
    then have k: "k < length ts" by (simp add: encode_spans_def)
    then show "encode_spans (length ts) (extract_spans ts) ! k = ts ! k"
      using n[OF k] by (simp add: encode_spans_def)
  qed
qed








section \<open>Counts of an example and the shape of the report\<close>

lemma new_span_sel:
  "span_category (new_span c i) = c" "start_index (new_span c i) = i" "end_index (new_span c i) = i"
  by (simp_all add: new_span_def)

lemma ex_spans:
  "extract_spans [Begin Object, Begin Aspect] = [new_span Object 0, new_span Aspect (Suc 0)]"
  "extract_spans [Begin Object, Outside] = [new_span Object 0]"
  by (simp_all add: extract_spans_def extractor_init_def close_open_def)

lemma ex_match:
  "match_spans pol [new_span Object 0, new_span Aspect (Suc 0)] [new_span Object 0] = [(0, 0)]"
  by (cases pol) (simp_all add: match_spans_def candidates_def new_span_def overlap_def)

lemma ex_counts:
  "sentence_counts pol [new_span Object 0, new_span Aspect (Suc 0)] [new_span Object 0] c =
     (case c of Aspect \<Rightarrow> \<lparr>true_positive = 0, false_positive = 0, false_negative = 1\<rparr>
      | Object \<Rightarrow> \<lparr>true_positive = 1, false_positive = 0, false_negative = 0\<rparr>
      | Predicate \<Rightarrow> \<lparr>true_positive = 0, false_positive = 0, false_negative = 0\<rparr>)"
  by (cases c) (simp_all add: sentence_counts_def ex_match Let_def new_span_sel)

lemma ex_accumulate:
  "per_category (accumulate pol example_corpus) Aspect = \<lparr>true_positive = 0, false_positive = 0, false_negative = 1\<rparr>"
  "per_category (accumulate pol example_corpus) Object = \<lparr>true_positive = 1, false_positive = 0, false_negative = 0\<rparr>"
  "per_category (accumulate pol example_corpus) Predicate = \<lparr>true_positive = 0, false_positive = 0, false_negative = 0\<rparr>"
  "aggregate (accumulate pol example_corpus) = \<lparr>true_positive = 1, false_positive = 0, false_negative = 1\<rparr>"
  by (simp_all add: accumulate_def example_corpus_def add_sentence_def categories_def ex_spans ex_counts
      increment_def totals_init_def add_counts_def zero_counts_def)

lemma digit_char_ok: "is_digit (digit_char d)"
proof -
  have "d mod 10 < length ''0123456789''" by simp
  then have "''0123456789'' ! (d mod 10) \<in> set ''0123456789''" by (rule nth_mem)
  then show ?thesis by (simp only: is_digit_def digit_char_def)
qed

lemma show_nat_digits: "show_nat n \<noteq> [] \<and> list_all is_digit (show_nat n)"
proof (induction n rule: show_nat.induct)
  case (1 n)
  show ?case
  proof (cases "n < 10")
    case True
    then show ?thesis by (subst (1 2) show_nat.simps) (simp add: digit_char_ok)
  next
    case False
    then show ?thesis using 1 by (subst (1 2) show_nat.simps) (simp add: digit_char_ok)
  qed
qed

lemma dot_not_digit: "is_digit ch \<Longrightarrow> ch \<noteq> CHR ''.''"
  by (auto simp: is_digit_def)

lemma six_decimals_shape:
  assumes "whole \<noteq> []" "list_all is_digit whole" "length decimals = 6" "list_all is_digit decimals"
  shows "six_decimals (whole @ ''.'' @ decimals)"
proof -
  have n: "\<forall>ch\<in>set whole. ch \<noteq> CHR ''.''" using assms(2) by (auto simp: list_all_iff dot_not_digit)
  have t: "takeWhile (\<lambda>ch. ch \<noteq> CHR ''.'') (whole @ CHR ''.'' # decimals) = whole"
    using n by (simp add: takeWhile_append2)
  have d: "dropWhile (\<lambda>ch. ch \<noteq> CHR ''.'') (whole @ CHR ''.'' # decimals) = CHR ''.'' # decimals"
    using n by (simp add: dropWhile_append2)
  show ?thesis using assms by (simp add: six_decimals_def t d Let_def)
qed

lemma format6_shape: "0 \<le> v \<Longrightarrow> six_decimals (format6 v)"
proof -
  assume v: "0 \<le> v"
  let ?n = "nat (round_half_even (\<bar>v\<bar> * 1000000))"
  have f: "format6 v = show_nat (?n div 1000000) @ ''.'' @ map (\<lambda>k. digit_char (?n div 10 ^ k)) [5, 4, 3, 2, 1, 0]"
    using v by (simp add: format6_def Let_def)
  show ?thesis unfolding f
    by (rule six_decimals_shape) (simp_all add: show_nat_digits digit_char_ok)
qed

lemma f1_nonneg: "0 \<le> f1 k"
  by (simp add: f1_def precision_def recall_def Let_def)

lemma report_lines:
  "report sents =
     concat (map render_line
       [(''f1_average_strict'', f1 (aggregate (accumulate Strict sents))),
        (''f1_aspect_strict'', f1 (per_category (accumulate Strict sents) Aspect)),
        (''f1_object_strict'', f1 (per_category (accumulate Strict sents) Object)),
        (''f1_predicate_strict'', f1 (per_category (accumulate Strict sents) Predicate)),
        (''f1_average'', f1 (aggregate (accumulate Partial sents))),
        (''f1_aspect'', f1 (per_category (accumulate Partial sents) Aspect)),
        (''f1_object'', f1 (per_category (accumulate Partial sents) Object)),
        (''f1_predicate'', f1 (per_category (accumulate Partial sents) Predicate))])"
  by (simp add: report_def report_entries_def categories_def category_name_def policy_suffix_def)

section \<open>The claims about \<open>read_dataset\<close>\<close>

text \<open>
  C1. The claim: a last sentence that no blank line follows is still returned, flushed
  at the end of the file. \<open>read_dataset\<close> appends to \<open>data\<close> only when it reads a blank
  line and returns \<open>data\<close> right after the loop, so the pairs accumulated since the last
  blank line are lost. The file of two token lines below gives no sentence at all; the
  same file with a blank line at its end gives the sentence.
\<close>

theorem read_dataset_drops_last_sentence:
  "read_dataset (''also'' @ [TAB] @ ''O'' @ [NL] @ ''advil'' @ [TAB] @ ''B-Object'' @ [NL]) = Inr [] \<and>
   read_dataset (''also'' @ [TAB] @ ''O'' @ [NL] @ ''advil'' @ [TAB] @ ''B-Object'' @ [NL, NL]) =
     Inr [([''also'', ''advil''], [''O'', ''B-Object''])]"
  by (simp add: read_dataset_def read_dataset_lines_def reader_init_def read_line_def
      isspace_def isspace_char_def strip_def)

text \<open>
  C2, as claimed: no sentence of the result is empty, a blank line read while nothing is
  accumulated yields nothing. It fails: the loop appends \<open>(sentence, tags)\<close> at every
  blank line without looking at them. A file that is one blank line gives one empty
  sentence, and a second blank line after a sentence gives an empty sentence too.
\<close>

theorem read_dataset_empty_sentence_counterexample:
  "read_dataset [NL] = Inr [([], [])] \<and>
   read_dataset (''a'' @ [TAB] @ ''O'' @ [NL, NL, NL]) = Inr [([''a''], [''O'']), ([], [])]"
  by (simp add: read_dataset_def read_dataset_lines_def reader_init_def read_line_def
      isspace_def isspace_char_def strip_def)

text \<open>
  C2, amended: a blank line appends the pairs accumulated so far as one sentence also
  when there are none, so a blank line read while nothing is accumulated (the first
  line of the file, or a blank line right after another one) appends an empty sentence;
  the result holds an empty sentence exactly when the file has such a blank line.
\<close>

theorem read_dataset_blank_lines:
  assumes "read_dataset content = Inr d"
    and "ls = file_lines (universal_newlines content)"
  shows "(isspace l \<longrightarrow>
            read_line st l =
              Inr \<lparr>data = data st @ [(sentence st, tags st)], sentence = [], tags = []\<rparr>) \<and>
         (list_ex (\<lambda>s. fst s = []) d \<longleftrightarrow>
            (ls \<noteq> [] \<and> isspace (hd ls)) \<or>
            (\<exists>i. Suc i < length ls \<and> isspace (ls ! i) \<and> isspace (ls ! Suc i)))"
proof -
  from assms obtain st0 where st: "read_lines reader_init ls = Inr st0" and d: "d = data st0"
    by (auto simp: read_dataset_def read_dataset_lines_def split: sum.splits)
  have "list_ex (\<lambda>s. fst s = []) d \<longleftrightarrow> blank_on_empty True ls"
    using read_lines_empty_sentence[OF st] d by (simp add: reader_init_def)
  then have "list_ex (\<lambda>s. fst s = []) d \<longleftrightarrow>
            (ls \<noteq> [] \<and> isspace (hd ls)) \<or>
            (\<exists>i. Suc i < length ls \<and> isspace (ls ! i) \<and> isspace (ls ! Suc i))"
    by (simp only: blank_on_empty_iff simp_thms)
  then show ?thesis using read_line_blank[of l st] by blast
qed

theorem read_dataset_blank_lines_witness:
  "read_dataset (''a'' @ [TAB] @ ''O'' @ [NL, NL, NL]) = Inr [([''a''], [''O'']), ([], [])] \<and>
   read_line \<lparr>data = [([''a''], [''O''])], sentence = [], tags = []\<rparr> [NL] =
     Inr \<lparr>data = [([''a''], [''O'']), ([], [])], sentence = [], tags = []\<rparr> \<and>
   list_ex (\<lambda>s. fst s = []) [([''a''], [''O'']), ([], []) :: sentence_tags]"
proof -
  have h: "read_dataset (''a'' @ [TAB] @ ''O'' @ [NL, NL, NL]) = Inr [([''a''], [''O'']), ([], [])]"
    by (simp add: read_dataset_def read_dataset_lines_def reader_init_def read_line_def
        isspace_def isspace_char_def strip_def)
  have b: "isspace [NL]" by (simp add: isspace_def isspace_char_def)
  from read_dataset_blank_lines[OF h refl, of "[NL]" "\<lparr>data = [([''a''], [''O''])], sentence = [], tags = []\<rparr>"]
  show ?thesis using h b by simp
qed

text \<open>
  C6. A line that is not blank and does not split at tabs into exactly two fields makes
  \<open>read_dataset\<close> fail, wherever it stands in the file: the lines before it are blank or
  well formed, and the unpacking of the split raises. Nothing is returned, neither the
  sentences read so far nor the rest. The exception is Python's \<open>ValueError\<close>, the
  notebook's form of the malformed-line error. The number of fields is the number of
  tabs plus one (lemma \<open>split_length\<close>), so the lines meant are those without a tab or
  with more than one.
\<close>

theorem read_dataset_malformed_line:
  assumes "l \<in> set (file_lines (universal_newlines content))"
    and "\<not> isspace l"
    and "length (split TAB l) \<noteq> 2"
  shows "read_dataset content = Inl ValueError"
proof -
  have "count_list l TAB \<noteq> 1" using assms(3) by (simp add: split_length)
  then have "read_lines reader_init (file_lines (universal_newlines content)) = Inl ValueError"
    using assms(1,2) by (intro read_lines_malformed)
  then show ?thesis by (simp add: read_dataset_def read_dataset_lines_def)
qed

theorem read_dataset_malformed_line_witness:
  "''advil B-Object'' @ [NL] \<in>
     set (file_lines (universal_newlines (''also'' @ [TAB] @ ''O'' @ [NL] @ ''advil B-Object'' @ [NL, NL]))) \<and>
   length (split TAB (''advil B-Object'' @ [NL])) = 1 \<and>
   read_dataset (''also'' @ [TAB] @ ''O'' @ [NL] @ ''advil B-Object'' @ [NL, NL]) = Inl ValueError"
proof -
  let ?content = "''also'' @ [TAB] @ ''O'' @ [NL] @ ''advil B-Object'' @ [NL, NL]"
  let ?l = "''advil B-Object'' @ [NL]"
  have a: "?l \<in> set (file_lines (universal_newlines ?content))" by simp
  have b: "\<not> isspace ?l" by (simp add: isspace_def isspace_char_def)
  have c: "length (split TAB ?l) = 1" by simp
  then have c': "length (split TAB ?l) \<noteq> 2" by simp
  from read_dataset_malformed_line[OF a b c'] a c show ?thesis by simp
qed



section \<open>The claims about the tag dictionaries and the written file\<close>

text \<open>
  C8, as claimed: for every list of sentences the file written by cell 12 reads back as
  the same list. It fails for a corpus with an empty sentence, which \<open>read_dataset\<close>
  returns for a file that is one blank line: the tagger raises on it, nothing is
  written, and the file reads back as no sentence at all.
\<close>

theorem inference_empty_sentence_counterexample:
  "read_dataset [NL] = Inr [([], [])] \<and>
   inference (\<lambda>toks. map (\<lambda>_. 0) toks) [([], [])] = ([], Some RuntimeError) \<and>
   read_dataset (fst (inference (\<lambda>toks. map (\<lambda>_. 0) toks) [([], [])])) = Inr []"
  by (simp add: read_dataset_def read_dataset_lines_def reader_init_def read_line_def
      isspace_def isspace_char_def)

text \<open>
  C8, amended: for a corpus returned by \<open>read_dataset\<close> that has no empty sentence,
  with a tagger that gives one index of the seven per token, cell 12 runs to its end
  and writes one \<open>token<TAB>tag\<close> line per token and a blank line after every sentence,
  the last included; \<open>read_dataset\<close> on the written file returns exactly the sentences
  written, the corpus's token lists each with its written tags.
\<close>

theorem inference_read_back:
  assumes "read_dataset content = Inr test_data"
    and "list_all (\<lambda>s. fst s \<noteq> []) test_data"
    and "tagger_ok predict test_data"
  shows "inference predict test_data = (write_sentences (map (predicted predict) test_data), None) \<and>
         map fst (map (predicted predict) test_data) = map fst test_data \<and>
         file_lines (write_sentences (map (predicted predict) test_data)) =
           concat (map (\<lambda>s. map line_of (zip (fst s) (snd s)) @ [[NL]])
             (map (predicted predict) test_data)) \<and>
         read_dataset (write_sentences (map (predicted predict) test_data)) =
           Inr (map (predicted predict) test_data)"
proof -
  have ok: "list_all sentence_ok (map (predicted predict) test_data)"
    using read_dataset_tokens_ok[OF assms(1)] assms(3) by (rule predicted_ok)
  have "map fst (map (predicted predict) test_data) = map fst test_data"
    by (simp add: predicted_def)
  then show ?thesis
    using inference_writes[OF assms(2,3)] file_lines_write_sentences[OF ok] read_written[OF ok]
    by (intro conjI)
qed

theorem inference_read_back_witness:
  "read_dataset (''advil'' @ [TAB] @ ''I-Object'' @ [NL] @ ''works'' @ [TAB] @ ''O'' @ [NL, NL] @
       ''.'' @ [TAB] @ ''O'' @ [NL, NL]) =
     Inr [([''advil'', ''works''], [''I-Object'', ''O'']), ([''.''], [''O''])] \<and>
   tagger_ok (\<lambda>toks. map (\<lambda>_. 1) toks) [([''advil'', ''works''], [''I-Object'', ''O'']), ([''.''], [''O''])] \<and>
   snd (inference (\<lambda>toks. map (\<lambda>_. 1) toks)
          [([''advil'', ''works''], [''I-Object'', ''O'']), ([''.''], [''O''])]) = None \<and>
   read_dataset (fst (inference (\<lambda>toks. map (\<lambda>_. 1) toks)
          [([''advil'', ''works''], [''I-Object'', ''O'']), ([''.''], [''O''])])) =
     Inr [([''advil'', ''works''], [''B-Object'', ''B-Object'']), ([''.''], [''B-Object''])]"
proof -
  let ?content = "''advil'' @ [TAB] @ ''I-Object'' @ [NL] @ ''works'' @ [TAB] @ ''O'' @ [NL, NL] @
       ''.'' @ [TAB] @ ''O'' @ [NL, NL]"
  let ?td = "[([''advil'', ''works''], [''I-Object'', ''O'']), ([''.''], [''O''])] :: sentence_tags list"
  let ?p = "\<lambda>toks :: string list. map (\<lambda>_. 1 :: int) toks"
  have h1: "read_dataset ?content = Inr ?td"
    by (simp add: read_dataset_def read_dataset_lines_def reader_init_def read_line_def
        isspace_def isspace_char_def strip_def)
  have h2: "list_all (\<lambda>s. fst s \<noteq> []) ?td" by simp
  have h3: "tagger_ok ?p ?td" by (simp add: tagger_ok_def)
  have i: "idx_to_tag 1 = Some ''B-Object''"
    by (simp add: idx_to_tag_def dict_def tag_to_ix_items_def)
  have m: "map (predicted ?p) ?td =
      [([''advil'', ''works''], [''B-Object'', ''B-Object'']), ([''.''], [''B-Object''])]"
    by (simp add: predicted_def tags_of_def i)
  from inference_read_back[OF h1 h2 h3] show ?thesis using h1 h3 unfolding m by simp
qed

text \<open>
  C9. \<open>idx_to_tag\<close> inverts \<open>tag_to_ix\<close> on the seven tags, and it has no other value:
  an index it knows gives one of the seven tags, and that tag maps back to the index.
  So every tag the inference cell writes, being a value of \<open>idx_to_tag\<close>, is one of the
  seven, also when the loop ends early: an index outside the dictionary raises before
  anything is written for its sentence.
\<close>

theorem idx_to_tag_inverse:
  "(\<forall>t \<in> set closed_tags. \<exists>i. tag_to_ix t = Some i \<and> idx_to_tag i = Some t) \<and>
   (\<forall>i t. idx_to_tag i = Some t \<longrightarrow> t \<in> set closed_tags \<and> tag_to_ix t = Some i) \<and>
   (\<forall>predict sents. \<exists>tagss. length tagss \<le> length sents \<and>
      fst (inference predict sents) = write_sentences (zip (map fst sents) tagss) \<and>
      list_all (\<lambda>ts. set ts \<subseteq> set closed_tags) tagss \<and>
      (snd (inference predict sents) = None \<longrightarrow> length tagss = length sents))"
  using tag_to_ix_Some idx_to_tag_Some inference_closed by blast

theorem idx_to_tag_inverse_witness:
  "(\<exists>i. tag_to_ix ''B-Aspect'' = Some i \<and> idx_to_tag i = Some ''B-Aspect'') \<and>
   idx_to_tag 3 = Some ''B-Aspect'' \<and> tag_to_ix ''B-Aspect'' = Some 3 \<and>
   inference (\<lambda>toks. map (\<lambda>_. 3) toks) [([''advil''], [''B-Object''])] =
     (''advil'' @ [TAB] @ ''B-Aspect'' @ [NL, NL], None) \<and>
   (\<exists>tagss. length tagss = length [([''advil''], [''B-Object'']) :: sentence_tags] \<and>
      ''advil'' @ [TAB] @ ''B-Aspect'' @ [NL, NL] =
        write_sentences (zip (map fst [([''advil''], [''B-Object'']) :: sentence_tags]) tagss) \<and>
      list_all (\<lambda>ts. set ts \<subseteq> set closed_tags) tagss)"
proof -
  let ?predict = "\<lambda>toks :: string list. map (\<lambda>_. 3 :: int) toks"
  let ?sents = "[([''advil''], [''B-Object''])] :: sentence_tags list"
  have m: "''B-Aspect'' \<in> set closed_tags" by (simp add: closed_tags_def)
  have i: "idx_to_tag 3 = Some ''B-Aspect''"
    by (simp add: idx_to_tag_def dict_def tag_to_ix_items_def)
  have r: "inference ?predict ?sents = (''advil'' @ [TAB] @ ''B-Aspect'' @ [NL, NL], None)"
    by (simp add: i write_sentence_def)
  note inv = idx_to_tag_inverse
  from inv m have 1: "\<exists>i. tag_to_ix ''B-Aspect'' = Some i \<and> idx_to_tag i = Some ''B-Aspect''"
    by blast
  from inv i have 2: "tag_to_ix ''B-Aspect'' = Some 3" by blast
  from inv obtain tagss where t: "length tagss \<le> length ?sents"
    "fst (inference ?predict ?sents) = write_sentences (zip (map fst ?sents) tagss)"
    "list_all (\<lambda>ts. set ts \<subseteq> set closed_tags) tagss"
    "snd (inference ?predict ?sents) = None \<longrightarrow> length tagss = length ?sents"
    by blast
  have 3: "\<exists>tagss. length tagss = length ?sents \<and>
      ''advil'' @ [TAB] @ ''B-Aspect'' @ [NL, NL] = write_sentences (zip (map fst ?sents) tagss) \<and>
      list_all (\<lambda>ts. set ts \<subseteq> set closed_tags) tagss"
    using t unfolding r by (intro exI[of _ tagss]) simp
  from 1 i 2 r 3 show ?thesis by (intro conjI)
qed

section \<open>The claims about the evaluator\<close>




text \<open>
  C7. For a tag sequence in which every \<open>I-<cat>\<close> comes right after a \<open>B-<cat>\<close> or an
  \<open>I-<cat>\<close>, encoding the extracted spans over the same number of tokens gives the
  sequence back.
\<close>

theorem encode_extract_roundtrip:
  assumes "no_dangling None ts"
  shows "encode_spans (length ts) (extract_spans ts) = ts"
  using assms by (rule encode_extract)

theorem encode_extract_roundtrip_witness:
  "no_dangling None [Begin Object, Inside Object, Outside, Begin Aspect, Begin Aspect, Inside Aspect] \<and>
   encode_spans (length [Begin Object, Inside Object, Outside, Begin Aspect, Begin Aspect, Inside Aspect])
     (extract_spans [Begin Object, Inside Object, Outside, Begin Aspect, Begin Aspect, Inside Aspect]) =
     [Begin Object, Inside Object, Outside, Begin Aspect, Begin Aspect, Inside Aspect]"
proof -
  have h: "no_dangling None [Begin Object, Inside Object, Outside, Begin Aspect, Begin Aspect, Inside Aspect]"
    by simp
  from encode_extract_roundtrip[OF h] h show ?thesis by (intro conjI)
qed

section \<open>The report on concrete scores\<close>

lemma round_half_even_numeral: "round_half_even (numeral n) = numeral n"
  by (simp add: round_half_even_def)

lemma round_half_even_0_1: "round_half_even 0 = 0" "round_half_even 1000000 = 1000000"
  by (simp_all add: round_half_even_def)

lemma round_two_thirds: "round_half_even (2000000 / 3) = 666667"
  by (simp add: round_half_even_def Let_def)

lemma render_examples:
  "render_line (key, 2 / 3) = key @ '': 0.666667'' @ [NL]"
  "render_line (key, 0) = key @ '': 0.000000'' @ [NL]"
  "render_line (key, 1) = key @ '': 1.000000'' @ [NL]"
  by (simp_all add: render_line_def format6_def Let_def round_two_thirds round_half_even_0_1
      show_nat.simps digit_char_def)

lemma example_f1:
  "f1 (aggregate (accumulate pol example_corpus)) = 2 / 3"
  "f1 (per_category (accumulate pol example_corpus) Aspect) = 0"
  "f1 (per_category (accumulate pol example_corpus) Object) = 1"
  "f1 (per_category (accumulate pol example_corpus) Predicate) = 0"
  by (simp_all add: ex_accumulate f1_def precision_def recall_def)

lemma recorded_lines:
  "concat (map render_line
     [(''f1_average_strict'', 437729 / 1000000),
      (''f1_aspect_strict'', 128834 / 1000000),
      (''f1_object_strict'', 354149 / 1000000),
      (''f1_predicate_strict'', 812500 / 1000000),
      (''f1_average'', 452591 / 1000000),
      (''f1_aspect'', 158998 / 1000000),
      (''f1_object'', 360194 / 1000000),
      (''f1_predicate'', 835016 / 1000000)]) =
   concat (map (\<lambda>l. l @ [NL]) recorded_scores)"
  by (simp add: render_line_def format6_def Let_def round_half_even_numeral
      show_nat.simps digit_char_def recorded_scores_def)

section \<open>The claim about the report\<close>

text \<open>
  C5. The report is eight lines in this order: \<open>f1_average_strict\<close>, the strict line of
  aspect, object and predicate, \<open>f1_average\<close>, and the partial line of the three
  categories. A line is its key, a colon and a space, the value and a newline. A
  rendered F1 value is decimal digits, a point and exactly six decimal digits. Rendered
  for the scores printed in cell 13, the lines are the ones recorded there.
\<close>

theorem report_format:
  "report sents =
     concat (map render_line
       [(''f1_average_strict'', f1 (aggregate (accumulate Strict sents))),
        (''f1_aspect_strict'', f1 (per_category (accumulate Strict sents) Aspect)),
        (''f1_object_strict'', f1 (per_category (accumulate Strict sents) Object)),
        (''f1_predicate_strict'', f1 (per_category (accumulate Strict sents) Predicate)),
        (''f1_average'', f1 (aggregate (accumulate Partial sents))),
        (''f1_aspect'', f1 (per_category (accumulate Partial sents) Aspect)),
        (''f1_object'', f1 (per_category (accumulate Partial sents) Object)),
        (''f1_predicate'', f1 (per_category (accumulate Partial sents) Predicate))]) \<and>
   render_line (key, v) = key @ '': '' @ format6 v @ [NL] \<and>
   six_decimals (format6 (f1 k)) \<and>
   concat (map render_line
     [(''f1_average_strict'', 437729 / 1000000),
      (''f1_aspect_strict'', 128834 / 1000000),
      (''f1_object_strict'', 354149 / 1000000),
      (''f1_predicate_strict'', 812500 / 1000000),
      (''f1_average'', 452591 / 1000000),
      (''f1_aspect'', 158998 / 1000000),
      (''f1_object'', 360194 / 1000000),
      (''f1_predicate'', 835016 / 1000000)]) =
   concat (map (\<lambda>l. l @ [NL]) recorded_scores)"
proof -
  have "six_decimals (format6 (f1 k))" by (rule format6_shape) (rule f1_nonneg)
  moreover have "render_line (key, v) = key @ '': '' @ format6 v @ [NL]"
    by (simp add: render_line_def)
  ultimately show ?thesis using report_lines[of sents] recorded_lines by (intro conjI)
qed

theorem report_format_witness:
  "report example_corpus =
     ''f1_average_strict: 0.666667'' @ [NL] @
     ''f1_aspect_strict: 0.000000'' @ [NL] @
     ''f1_object_strict: 1.000000'' @ [NL] @
     ''f1_predicate_strict: 0.000000'' @ [NL] @
     ''f1_average: 0.666667'' @ [NL] @
     ''f1_aspect: 0.000000'' @ [NL] @
     ''f1_object: 1.000000'' @ [NL] @
     ''f1_predicate: 0.000000'' @ [NL]"
proof -
  from report_format[of example_corpus] have "report example_corpus =
     concat (map render_line
       [(''f1_average_strict'', f1 (aggregate (accumulate Strict example_corpus))),
        (''f1_aspect_strict'', f1 (per_category (accumulate Strict example_corpus) Aspect)),
        (''f1_object_strict'', f1 (per_category (accumulate Strict example_corpus) Object)),
        (''f1_predicate_strict'', f1 (per_category (accumulate Strict example_corpus) Predicate)),
        (''f1_average'', f1 (aggregate (accumulate Partial example_corpus))),
        (''f1_aspect'', f1 (per_category (accumulate Partial example_corpus) Aspect)),
        (''f1_object'', f1 (per_category (accumulate Partial example_corpus) Object)),
        (''f1_predicate'', f1 (per_category (accumulate Partial example_corpus) Predicate))])"
    by (rule conjunct1)
  then show ?thesis by (simp add: example_f1 render_examples)
qed

end
